theory Spec2Isabelle
  imports Main
begin

section \<open>The specification tree (specification.go)\<close>

text \<open>
  Every node kind of \<^verbatim>\<open>specification.go\<close> is a struct holding its payload; the
  factories \<^verbatim>\<open>Equal\<close>, \<^verbatim>\<open>In\<close>, \<^verbatim>\<open>And\<close>, ... only fill the struct in. The tree is
  the datatype of these structs, its constructors named after the factories. The payload
  values have Go type \<^verbatim>\<open>interface{}\<close> and are never inspected, so the tree is polymorphic
  in the value type \<open>'v\<close>. Go's \<^verbatim>\<open>int\<close> of \<^verbatim>\<open>Limit\<close> and \<^verbatim>\<open>Offset\<close> is only stored,
  compared with zero and printed, never computed with, so it is an \<open>int\<close> here.

  A Go string is modelled as the list of its bytes, and the model is about strings that
  are valid UTF-8, as the literals of Go source are. The one place that looks inside a
  string is the loop of \<^verbatim>\<open>BuildQuery\<close>, which reads it rune by rune: on valid UTF-8 it
  writes the bytes of every character other than \<^verbatim>\<open>?\<close> back unchanged, and the byte of
  \<^verbatim>\<open>?\<close> occurs only as that character, so the loop acts byte by byte. On a byte that is
  not valid UTF-8 the loop would write U+FFFD in its place; such strings are outside the
  model.

  A child of \<^verbatim>\<open>And\<close>/\<^verbatim>\<open>Or\<close> is a specification; a nil interface value among the
  children (on which \<^verbatim>\<open>Accept\<close> panics) is not a tree and has no counterpart in the
  datatype.
\<close>

datatype 'v spec =
    Equal string 'v
  | NotEqual string 'v
  | In string "'v list"
  | And "'v spec list"
  | Or "'v spec list"
  | Limit int
  | OrderBy string string
  | GreaterThan string 'v
  | LowerThan string 'v
  | Like string 'v
  | GreaterThanOrEqual string 'v
  | LowerThanOrEqual string 'v
  | Offset int

section \<open>Library functions used by the visitor\<close>

text \<open>\<^verbatim>\<open>strings.Join(elems, sep)\<close>: the elements with the separator between neighbours.\<close>

fun Join :: "string list \<Rightarrow> string \<Rightarrow> string" where
  "Join [] sep = []"
| "Join [x] sep = x"
| "Join (x # y # ys) sep = x @ sep @ Join (y # ys) sep"

text \<open>
  \<^verbatim>\<open>fmt.Sprintf("%d", n)\<close>: the decimal digits of \<open>n\<close>, most significant first, after a
  minus sign when \<open>n\<close> is negative.
\<close>

definition digit_char :: "nat \<Rightarrow> char" where
  "digit_char d = char_of (48 + d)"

function decimal :: "nat \<Rightarrow> string" where
  "decimal n = (if n < 10 then [digit_char n] else decimal (n div 10) @ [digit_char (n mod 10)])"
  by pat_completeness auto
termination
  by (relation "measure (\<lambda>n. n)") auto

definition fmt_d :: "int \<Rightarrow> string" where
  "fmt_d i = (if i < 0 then CHR ''-'' # decimal (nat (- i)) else decimal (nat i))"

section \<open>The compiling visitor (postgres/visitor.go)\<close>

record 'v visitor =
  conditions :: "string list"
  args :: "'v list"
  fieldMap :: "string \<rightharpoonup> string"
  orderClauses :: "string list"
  limit :: int
  offset :: int

definition NewVisitor :: "(string \<rightharpoonup> string) \<Rightarrow> 'v visitor" where
  "NewVisitor fm =
     \<lparr>conditions = [], args = [], fieldMap = fm, orderClauses = [], limit = 0, offset = 0\<rparr>"

definition mapField :: "'v visitor \<Rightarrow> string \<Rightarrow> string" where
  "mapField v domainField =
     (case fieldMap v domainField of Some dbField \<Rightarrow> dbField | None \<Rightarrow> domainField)"

text \<open>
  The seven comparison visitors differ in the operator text only: each maps the field, appends
  \<^verbatim>\<open>fmt.Sprintf("%s <op> ?", dbField)\<close> to the conditions and the value to the arguments.
\<close>

definition VisitEqual :: "'v visitor \<Rightarrow> string \<Rightarrow> 'v \<Rightarrow> 'v visitor" where
  "VisitEqual v field val =
     (let dbField = mapField v field in
      v\<lparr>conditions := conditions v @ [dbField @ '' = ?''], args := args v @ [val]\<rparr>)"

definition VisitNotEqual :: "'v visitor \<Rightarrow> string \<Rightarrow> 'v \<Rightarrow> 'v visitor" where
  "VisitNotEqual v field val =
     (let dbField = mapField v field in
      v\<lparr>conditions := conditions v @ [dbField @ '' <> ?''], args := args v @ [val]\<rparr>)"

definition VisitGreaterThan :: "'v visitor \<Rightarrow> string \<Rightarrow> 'v \<Rightarrow> 'v visitor" where
  "VisitGreaterThan v field val =
     (let dbField = mapField v field in
      v\<lparr>conditions := conditions v @ [dbField @ '' > ?''], args := args v @ [val]\<rparr>)"

definition VisitLowerThan :: "'v visitor \<Rightarrow> string \<Rightarrow> 'v \<Rightarrow> 'v visitor" where
  "VisitLowerThan v field val =
     (let dbField = mapField v field in
      v\<lparr>conditions := conditions v @ [dbField @ '' < ?''], args := args v @ [val]\<rparr>)"

definition VisitLike :: "'v visitor \<Rightarrow> string \<Rightarrow> 'v \<Rightarrow> 'v visitor" where
  "VisitLike v field val =
     (let dbField = mapField v field in
      v\<lparr>conditions := conditions v @ [dbField @ '' LIKE ?''], args := args v @ [val]\<rparr>)"

definition VisitGreaterThanOrEqual :: "'v visitor \<Rightarrow> string \<Rightarrow> 'v \<Rightarrow> 'v visitor" where
  "VisitGreaterThanOrEqual v field val =
     (let dbField = mapField v field in
      v\<lparr>conditions := conditions v @ [dbField @ '' >= ?''], args := args v @ [val]\<rparr>)"

definition VisitLowerThanOrEqual :: "'v visitor \<Rightarrow> string \<Rightarrow> 'v \<Rightarrow> 'v visitor" where
  "VisitLowerThanOrEqual v field val =
     (let dbField = mapField v field in
      v\<lparr>conditions := conditions v @ [dbField @ '' <= ?''], args := args v @ [val]\<rparr>)"

text \<open>
  \<^verbatim>\<open>VisitIn\<close>: one pass over the indices of \<^verbatim>\<open>values\<close> stores \<^verbatim>\<open>"?"\<close> in slot \<open>i\<close> of the
  preallocated \<^verbatim>\<open>qs\<close> and appends \<^verbatim>\<open>values[i]\<close> to the arguments. The loop state is the
  pair of \<^verbatim>\<open>qs\<close> and the arguments.
\<close>

definition in_step :: "'v list \<Rightarrow> nat \<Rightarrow> string list \<times> 'v list \<Rightarrow> string list \<times> 'v list" where
  "in_step vals i st = ((fst st)[i := ''?''], snd st @ [vals ! i])"

definition in_loop :: "'v list \<Rightarrow> 'v list \<Rightarrow> string list \<times> 'v list" where
  "in_loop vals as = fold (in_step vals) [0..<length vals] (replicate (length vals) [], as)"

definition VisitIn :: "'v visitor \<Rightarrow> string \<Rightarrow> 'v list \<Rightarrow> 'v visitor" where
  "VisitIn v field vals =
     (let dbField = mapField v field in
      if length vals = 0 then v\<lparr>conditions := conditions v @ [''1=0'']\<rparr>
      else
        (let (qs, as) = in_loop vals (args v) in
         v\<lparr>conditions := conditions v @ [dbField @ '' IN ('' @ Join qs '', '' @ '')''],
           args := as\<rparr>))"

definition VisitLimit :: "'v visitor \<Rightarrow> int \<Rightarrow> 'v visitor" where
  "VisitLimit v l = v\<lparr>limit := l\<rparr>"

definition VisitOffset :: "'v visitor \<Rightarrow> int \<Rightarrow> 'v visitor" where
  "VisitOffset v off = v\<lparr>offset := off\<rparr>"

definition VisitOrder :: "'v visitor \<Rightarrow> string \<Rightarrow> string \<Rightarrow> 'v visitor" where
  "VisitOrder v field direction =
     (let dbField = mapField v field in
      v\<lparr>orderClauses := orderClauses v @ [dbField @ '' '' @ direction]\<rparr>)"

text \<open>
  \<^verbatim>\<open>VisitAnd\<close> and \<^verbatim>\<open>VisitOr\<close> call \<^verbatim>\<open>s.Accept\<close> through the \<^verbatim>\<open>Specification\<close>
  interface; the model takes that method as the parameter \<open>accept\<close>. What either does with
  a finished nested accumulator is the same three statements, \<open>merge_tail\<close>: the caller has
  already decided whether a condition fragment is to be appended.
\<close>

definition merge_tail :: "'v visitor \<Rightarrow> 'v visitor \<Rightarrow> 'v visitor" where
  "merge_tail v sub =
     (let v = v\<lparr>orderClauses := orderClauses v @ orderClauses sub\<rparr>;
          v = (if limit sub > 0 then v\<lparr>limit := limit sub\<rparr> else v);
          v = (if offset sub > 0 then v\<lparr>offset := offset sub\<rparr> else v)
      in v)"

definition VisitAnd ::
  "('s \<Rightarrow> 'v visitor \<Rightarrow> 'v visitor) \<Rightarrow> 'v visitor \<Rightarrow> 's list \<Rightarrow> 'v visitor" where
  "VisitAnd accept v specs =
     (let subVisitor = fold accept specs (NewVisitor (fieldMap v));
          v = (if length (conditions subVisitor) > 0
               then v\<lparr>conditions := conditions v @ [''('' @ Join (conditions subVisitor) '' AND '' @ '')''],
                      args := args v @ args subVisitor\<rparr>
               else v)
      in merge_tail v subVisitor)"

text \<open>
  The loop of \<^verbatim>\<open>VisitOr\<close> carries \<^verbatim>\<open>orParts\<close> and \<^verbatim>\<open>subVisitor\<close>; each round compiles
  one child into a new accumulator \<^verbatim>\<open>temp\<close>.
\<close>

definition or_step ::
  "'v visitor \<Rightarrow> string list \<times> 'v visitor \<Rightarrow> string list \<times> 'v visitor" where
  "or_step temp st =
     (let orParts = fst st; subVisitor = snd st;
          (orParts, subVisitor) =
            (if length (conditions temp) > 0
             then (orParts @ [''('' @ Join (conditions temp) '' AND '' @ '')''],
                   subVisitor\<lparr>args := args subVisitor @ args temp\<rparr>)
             else (orParts, subVisitor))
      in (orParts, merge_tail subVisitor temp))"

definition VisitOr ::
  "('s \<Rightarrow> 'v visitor \<Rightarrow> 'v visitor) \<Rightarrow> 'v visitor \<Rightarrow> 's list \<Rightarrow> 'v visitor" where
  "VisitOr accept v specs =
     (let (orParts, subVisitor) =
            fold (\<lambda>s. or_step (accept s (NewVisitor (fieldMap v)))) specs
              ([], NewVisitor (fieldMap v));
          v = (if length orParts > 0
               then v\<lparr>conditions := conditions v @ [''('' @ Join orParts '' OR '' @ '')''],
                      args := args v @ args subVisitor\<rparr>
               else v)
      in merge_tail v subVisitor)"

lemma VisitAnd_cong [fundef_cong]:
  assumes "specs = specs'" "v = v'"
    and "\<And>s w. s \<in> set specs' \<Longrightarrow> accept s w = accept' s w"
  shows "VisitAnd accept v specs = VisitAnd accept' v' specs'"
proof -
  have "fold accept specs' w = fold accept' specs' w" for w
    using assms(3) by (induction specs' arbitrary: w) simp_all
  then show ?thesis
    using assms(1,2) by (simp add: VisitAnd_def)
qed

lemma VisitOr_cong [fundef_cong]:
  assumes "specs = specs'" "v = v'"
    and "\<And>s w. s \<in> set specs' \<Longrightarrow> accept s w = accept' s w"
  shows "VisitOr accept v specs = VisitOr accept' v' specs'"
proof -
  have "fold (\<lambda>s. or_step (accept s w)) specs' st = fold (\<lambda>s. or_step (accept' s w)) specs' st"
    for w :: "'b visitor" and st
    using assms(3) by (induction specs' arbitrary: st) simp_all
  then show ?thesis
    using assms(1,2) by (simp add: VisitOr_def)
qed

text \<open>\<^verbatim>\<open>Accept\<close>: each node calls the visitor method of its kind with its payload.\<close>

fun Accept :: "'v spec \<Rightarrow> 'v visitor \<Rightarrow> 'v visitor" where
  "Accept (Equal field val) v = VisitEqual v field val"
| "Accept (NotEqual field val) v = VisitNotEqual v field val"
| "Accept (In field vals) v = VisitIn v field vals"
| "Accept (And specs) v = VisitAnd Accept v specs"
| "Accept (Or specs) v = VisitOr Accept v specs"
| "Accept (Limit l) v = VisitLimit v l"
| "Accept (OrderBy field direction) v = VisitOrder v field direction"
| "Accept (GreaterThan field val) v = VisitGreaterThan v field val"
| "Accept (LowerThan field val) v = VisitLowerThan v field val"
| "Accept (Like field val) v = VisitLike v field val"
| "Accept (GreaterThanOrEqual field val) v = VisitGreaterThanOrEqual v field val"
| "Accept (LowerThanOrEqual field val) v = VisitLowerThanOrEqual v field val"
| "Accept (Offset off) v = VisitOffset v off"

text \<open>
  \<^verbatim>\<open>BuildQuery\<close>. The renumbering loop reads the joined condition text one character at
  a time; its state is the text built so far and \<^verbatim>\<open>argIndex\<close>.
\<close>

definition renumber_step :: "char \<Rightarrow> string \<times> int \<Rightarrow> string \<times> int" where
  "renumber_step ch st =
     (if ch = CHR ''?'' then (fst st @ CHR ''$'' # fmt_d (snd st), snd st + 1)
      else (fst st @ [ch], snd st))"

definition renumber :: "string \<Rightarrow> string \<times> int" where
  "renumber fullCondition = fold renumber_step fullCondition ([], 1)"

definition BuildQuery :: "'v visitor \<Rightarrow> string \<Rightarrow> string \<times> 'v list" where
  "BuildQuery v baseQuery =
     (let query = baseQuery;
          query = (if length (conditions v) > 0
                   then query @ '' WHERE '' @ fst (renumber (Join (conditions v) '' AND ''))
                   else query);
          query = (if length (orderClauses v) > 0
                   then query @ '' ORDER BY '' @ Join (orderClauses v) '', ''
                   else query);
          query = (if limit v > 0 then query @ '' LIMIT '' @ fmt_d (limit v) else query);
          query = (if offset v > 0 then query @ '' OFFSET '' @ fmt_d (offset v) else query)
      in (query, args v))"

text \<open>
  The README's repository method \<^verbatim>\<open>Load\<close> shows how the visitor is driven: a new visitor,
  \<^verbatim>\<open>if spec != nil { spec.Accept(visitor) }\<close>, then \<^verbatim>\<open>BuildQuery\<close>. \<open>LoadQuery\<close> is that
  prefix of \<^verbatim>\<open>Load\<close>, up to the query text and the arguments handed to the driver; an
  absent specification is \<open>None\<close>.
\<close>

definition LoadQuery :: "(string \<rightharpoonup> string) \<Rightarrow> 'v spec option \<Rightarrow> string \<Rightarrow> string \<times> 'v list" where
  "LoadQuery fm spec baseQuery =
     (let visitor = NewVisitor fm;
          visitor = (case spec of None \<Rightarrow> visitor | Some s \<Rightarrow> Accept s visitor)
      in BuildQuery visitor baseQuery)"

section \<open>What the specification says, as functions of the tree\<close>

text \<open>
  The storage name of a logical field: its entry in the field-translation table, or the
  logical name itself when the table has none.
\<close>

definition storage_name :: "(string \<rightharpoonup> string) \<Rightarrow> string \<Rightarrow> string" where
  "storage_name fm f = (case fm f of None \<Rightarrow> f | Some d \<Rightarrow> d)"

text \<open>
  The rendering of a tree with its values written in place by \<open>sh\<close>: the fragments a node
  contributes to its accumulator. A boolean group with no fragment contributes nothing;
  otherwise it contributes its fragments joined and wrapped in parentheses. Each child
  of \<^verbatim>\<open>Or\<close> is grouped by itself first.
\<close>

definition paren_group :: "string \<Rightarrow> string list \<Rightarrow> string list" where
  "paren_group sep cs = (if cs = [] then [] else [''('' @ Join cs sep @ '')''])"

fun rendered :: "('v \<Rightarrow> string) \<Rightarrow> (string \<rightharpoonup> string) \<Rightarrow> 'v spec \<Rightarrow> string list" where
  "rendered sh fm (Equal f x) = [storage_name fm f @ '' = '' @ sh x]"
| "rendered sh fm (NotEqual f x) = [storage_name fm f @ '' <> '' @ sh x]"
| "rendered sh fm (GreaterThan f x) = [storage_name fm f @ '' > '' @ sh x]"
| "rendered sh fm (LowerThan f x) = [storage_name fm f @ '' < '' @ sh x]"
| "rendered sh fm (Like f x) = [storage_name fm f @ '' LIKE '' @ sh x]"
| "rendered sh fm (GreaterThanOrEqual f x) = [storage_name fm f @ '' >= '' @ sh x]"
| "rendered sh fm (LowerThanOrEqual f x) = [storage_name fm f @ '' <= '' @ sh x]"
| "rendered sh fm (In f xs) =
     (if xs = [] then [''1=0'']
      else [storage_name fm f @ '' IN ('' @ Join (map sh xs) '', '' @ '')''])"
| "rendered sh fm (And ss) = paren_group '' AND '' (concat (map (rendered sh fm) ss))"
| "rendered sh fm (Or ss) =
     paren_group '' OR '' (concat (map (\<lambda>s. paren_group '' AND '' (rendered sh fm s)) ss))"
| "rendered sh fm (Limit l) = []"
| "rendered sh fm (Offset off) = []"
| "rendered sh fm (OrderBy f d) = []"

text \<open>The values of the value-producing leaves, in traversal order.\<close>

fun leaf_values :: "'v spec \<Rightarrow> 'v list" where
  "leaf_values (Equal f x) = [x]"
| "leaf_values (NotEqual f x) = [x]"
| "leaf_values (GreaterThan f x) = [x]"
| "leaf_values (LowerThan f x) = [x]"
| "leaf_values (Like f x) = [x]"
| "leaf_values (GreaterThanOrEqual f x) = [x]"
| "leaf_values (LowerThanOrEqual f x) = [x]"
| "leaf_values (In f xs) = xs"
| "leaf_values (And ss) = concat (map leaf_values ss)"
| "leaf_values (Or ss) = concat (map leaf_values ss)"
| "leaf_values (Limit l) = []"
| "leaf_values (Offset off) = []"
| "leaf_values (OrderBy f d) = []"

text \<open>The order-by clauses of a tree, in traversal order.\<close>

fun order_clauses :: "(string \<rightharpoonup> string) \<Rightarrow> 'v spec \<Rightarrow> string list" where
  "order_clauses fm (OrderBy f d) = [storage_name fm f @ '' '' @ d]"
| "order_clauses fm (And ss) = concat (map (order_clauses fm) ss)"
| "order_clauses fm (Or ss) = concat (map (order_clauses fm) ss)"
| "order_clauses fm _ = []"

text \<open>The generic placeholder, written for every value alike.\<close>

definition generic :: "'v \<Rightarrow> string" where
  "generic x = ''?''"

text \<open>
  A tree is tracked when accepting it extends any accumulator by exactly its rendering with
  generic placeholders, its leaf values and its order-by clauses, and keeps the table.
\<close>

definition tracks :: "'v spec \<Rightarrow> bool" where
  "tracks t \<longleftrightarrow> (\<forall>v. fieldMap (Accept t v) = fieldMap v
     \<and> conditions (Accept t v) = conditions v @ rendered generic (fieldMap v) t
     \<and> args (Accept t v) = args v @ leaf_values t
     \<and> orderClauses (Accept t v) = orderClauses v @ order_clauses (fieldMap v) t)"

text \<open>
  \<open>qcount\<close> counts the generic placeholders of a text. \<open>bind\<close> puts the \<open>k\<close>-th text of
  a list in place of the \<open>k\<close>-th generic placeholder, left to right, as positional binding
  does with the arguments; a placeholder beyond the end of the list stays as it is.
  \<open>marker k\<close> is the positional marker \<^verbatim>\<open>$k\<close>.
\<close>

definition qcount :: "string \<Rightarrow> nat" where
  "qcount s = length (filter (\<lambda>c. c = CHR ''?'') s)"

fun bind :: "string list \<Rightarrow> string \<Rightarrow> string" where
  "bind as [] = []"
| "bind as (c # cs) =
     (if c = CHR ''?''
      then (case as of [] \<Rightarrow> c # bind [] cs | a # as' \<Rightarrow> a @ bind as' cs)
      else c # bind as cs)"

definition marker :: "nat \<Rightarrow> string" where
  "marker k = CHR ''$'' # fmt_d (int k)"



text \<open>
  The number of positional markers \<^verbatim>\<open>BuildQuery\<close> writes into the WHERE clause:
  \<^verbatim>\<open>argIndex\<close> starts at 1 and goes up by one at each marker written.
\<close>

definition placeholder_count :: "'v visitor \<Rightarrow> nat" where
  "placeholder_count v = nat (snd (renumber (Join (conditions v) '' AND '')) - 1)"

text \<open>The three tails \<^verbatim>\<open>BuildQuery\<close> appends to the base query, each possibly empty.\<close>

definition where_tail :: "'v visitor \<Rightarrow> string" where
  "where_tail v =
     (if conditions v = [] then []
      else '' WHERE '' @ fst (renumber (Join (conditions v) '' AND '')))"

definition order_tail :: "'v visitor \<Rightarrow> string" where
  "order_tail v =
     (if orderClauses v = [] then [] else '' ORDER BY '' @ Join (orderClauses v) '', '')"

definition page_tail :: "'v visitor \<Rightarrow> string" where
  "page_tail v =
     (if 0 < limit v then '' LIMIT '' @ fmt_d (limit v) else []) @
     (if 0 < offset v then '' OFFSET '' @ fmt_d (offset v) else [])"

text \<open>The field, operator text and value of a comparison node.\<close>

fun comparison :: "'v spec \<Rightarrow> (string \<times> string \<times> 'v) option" where
  "comparison (Equal f x) = Some (f, '' = '', x)"
| "comparison (NotEqual f x) = Some (f, '' <> '', x)"
| "comparison (GreaterThan f x) = Some (f, '' > '', x)"
| "comparison (LowerThan f x) = Some (f, '' < '', x)"
| "comparison (Like f x) = Some (f, '' LIKE '', x)"
| "comparison (GreaterThanOrEqual f x) = Some (f, '' >= '', x)"
| "comparison (LowerThanOrEqual f x) = Some (f, '' <= '', x)"
| "comparison (In f xs) = None"
| "comparison (And ss) = None"
| "comparison (Or ss) = None"
| "comparison (Limit l) = None"
| "comparison (Offset off) = None"
| "comparison (OrderBy f d) = None"

text \<open>
  Last strictly positive value wins: the value left after merging a sequence of nested
  values into \<open>cur\<close>, each replacing it only when strictly positive.
\<close>

fun last_positive :: "int \<Rightarrow> int list \<Rightarrow> int" where
  "last_positive cur [] = cur"
| "last_positive cur (x # xs) = last_positive (if 0 < x then x else cur) xs"

text \<open>
  Every fragment and clause a visitor emits for the logical field \<open>f\<close> carries the name
  \<open>n\<close>: the seven comparisons, a non-empty \<^verbatim>\<open>In\<close> and \<^verbatim>\<open>OrderBy\<close>.
\<close>

definition names_field :: "'v visitor \<Rightarrow> string \<Rightarrow> string \<Rightarrow> 'v \<Rightarrow> 'v list \<Rightarrow> string \<Rightarrow> bool" where
  "names_field v f n x xs d \<longleftrightarrow>
     mapField v f = n
   \<and> conditions (Accept (Equal f x) v) = conditions v @ [n @ '' = ?'']
   \<and> conditions (Accept (NotEqual f x) v) = conditions v @ [n @ '' <> ?'']
   \<and> conditions (Accept (GreaterThan f x) v) = conditions v @ [n @ '' > ?'']
   \<and> conditions (Accept (LowerThan f x) v) = conditions v @ [n @ '' < ?'']
   \<and> conditions (Accept (Like f x) v) = conditions v @ [n @ '' LIKE ?'']
   \<and> conditions (Accept (GreaterThanOrEqual f x) v) = conditions v @ [n @ '' >= ?'']
   \<and> conditions (Accept (LowerThanOrEqual f x) v) = conditions v @ [n @ '' <= ?'']
   \<and> conditions (Accept (In f (x # xs)) v) =
         conditions v @ [n @ '' IN ('' @ Join (map generic (x # xs)) '', '' @ '')'']
   \<and> orderClauses (Accept (OrderBy f d) v) = orderClauses v @ [n @ '' '' @ d]"

section \<open>Auxiliary lemmas\<close>

lemma in_loop_prefix:
  "n \<le> length vals \<Longrightarrow>
   fold (in_step vals) [0..<n] (replicate (length vals) [], as) =
     (replicate n ''?'' @ replicate (length vals - n) [], as @ take n vals)"
proof (induction n)
  case 0
  then show ?case by simp
next
  case (Suc n)
  then have "n < length vals" by simp
  then have "length vals - n = Suc (length vals - Suc n)" by simp
  with Suc show ?case
    by (simp add: in_step_def list_update_append take_Suc_conv_app_nth replicate_append_same)
qed

lemma in_loop_eq: "in_loop vals as = (map (\<lambda>_. ''?'') vals, as @ vals)"
  by (simp add: in_loop_def in_loop_prefix map_replicate_const)

lemma mapField_eq: "mapField v f = storage_name (fieldMap v) f"
  by (simp add: mapField_def storage_name_def split: option.split)

lemma merge_tail_sel [simp]:
  "conditions (merge_tail v sub) = conditions v"
  "args (merge_tail v sub) = args v"
  "fieldMap (merge_tail v sub) = fieldMap v"
  "orderClauses (merge_tail v sub) = orderClauses v @ orderClauses sub"
  "limit (merge_tail v sub) = (if limit sub > 0 then limit sub else limit v)"
  "offset (merge_tail v sub) = (if offset sub > 0 then offset sub else offset v)"
  by (simp_all add: merge_tail_def Let_def)

lemma NewVisitor_sel [simp]:
  "conditions (NewVisitor fm) = []"
  "args (NewVisitor fm) = []"
  "fieldMap (NewVisitor fm) = fm"
  "orderClauses (NewVisitor fm) = []"
  "limit (NewVisitor fm) = 0"
  "offset (NewVisitor fm) = 0"
  by (simp_all add: NewVisitor_def)

lemma VisitAnd_sel:
  fixes v :: "'v visitor"
  defines "sub \<equiv> \<lambda>accept specs. fold accept specs (NewVisitor (fieldMap v) :: 'v visitor)"
  shows
  "conditions (VisitAnd accept v specs) = conditions v @ paren_group '' AND '' (conditions (sub accept specs))"
  "args (VisitAnd accept v specs) =
     args v @ (if conditions (sub accept specs) = [] then [] else args (sub accept specs))"
  "fieldMap (VisitAnd accept v specs) = fieldMap v"
  "orderClauses (VisitAnd accept v specs) = orderClauses v @ orderClauses (sub accept specs)"
  "limit (VisitAnd accept v specs) =
     (if limit (sub accept specs) > 0 then limit (sub accept specs) else limit v)"
  "offset (VisitAnd accept v specs) =
     (if offset (sub accept specs) > 0 then offset (sub accept specs) else offset v)"
  by (simp_all add: VisitAnd_def Let_def paren_group_def sub_def)

lemma or_fold_sel:
  fixes temp :: "'s \<Rightarrow> 'v visitor"
  shows "fold (\<lambda>s. or_step (temp s)) specs (parts, sub) = (parts', sub') \<Longrightarrow>
    parts' = parts @ concat (map (\<lambda>s. paren_group '' AND '' (conditions (temp s))) specs) \<and>
    args sub' = args sub @ concat (map (\<lambda>s. if conditions (temp s) = [] then [] else args (temp s)) specs) \<and>
    conditions sub' = conditions sub \<and> fieldMap sub' = fieldMap sub \<and>
    orderClauses sub' = orderClauses sub @ concat (map (\<lambda>s. orderClauses (temp s)) specs)"
proof (induction specs arbitrary: parts sub)
  case Nil
  then show ?case by simp
next
  case (Cons s specs)
  obtain p1 s1 where st: "or_step (temp s) (parts, sub) = (p1, s1)"
    by (cases "or_step (temp s) (parts, sub)")
  then have 1: "p1 = parts @ paren_group '' AND '' (conditions (temp s))"
    "args s1 = args sub @ (if conditions (temp s) = [] then [] else args (temp s))"
    "conditions s1 = conditions sub" "fieldMap s1 = fieldMap sub"
    "orderClauses s1 = orderClauses sub @ orderClauses (temp s)"
    by (auto simp: or_step_def Let_def paren_group_def split: if_splits)
  from Cons.prems st have "fold (\<lambda>s. or_step (temp s)) specs (p1, s1) = (parts', sub')"
    by simp
  from Cons.IH [OF this] 1 show ?case by simp
qed

lemma paren_group_empty [simp]: "paren_group sep cs = [] \<longleftrightarrow> cs = []"
  by (simp add: paren_group_def)

lemma VisitOr_sel:
  fixes v :: "'v visitor"
  defines "temp \<equiv> \<lambda>accept s. accept s (NewVisitor (fieldMap v) :: 'v visitor)"
  shows
  "conditions (VisitOr accept v specs) =
     conditions v @ paren_group '' OR '' (concat (map (\<lambda>s. paren_group '' AND '' (conditions (temp accept s))) specs))"
  "args (VisitOr accept v specs) =
     args v @ (if (\<forall>s\<in>set specs. conditions (temp accept s) = []) then []
               else concat (map (\<lambda>s. if conditions (temp accept s) = [] then [] else args (temp accept s)) specs))"
  "fieldMap (VisitOr accept v specs) = fieldMap v"
  "orderClauses (VisitOr accept v specs) =
     orderClauses v @ concat (map (\<lambda>s. orderClauses (temp accept s)) specs)"
proof -
  obtain parts sub where f:
    "fold (\<lambda>s. or_step (temp accept s)) specs ([], NewVisitor (fieldMap v)) = (parts, sub)"
    by (cases "fold (\<lambda>s. or_step (temp accept s)) specs ([], NewVisitor (fieldMap v) :: 'v visitor)")
  from or_fold_sel [OF f] have
    p: "parts = concat (map (\<lambda>s. paren_group '' AND '' (conditions (temp accept s))) specs)" and
    a: "args sub = concat (map (\<lambda>s. if conditions (temp accept s) = [] then [] else args (temp accept s)) specs)" and
    oc: "orderClauses sub = concat (map (\<lambda>s. orderClauses (temp accept s)) specs)"
    by simp_all
  have e: "(parts = []) = (\<forall>s\<in>set specs. conditions (temp accept s) = [])"
    unfolding p by simp
  have "fold (\<lambda>s. or_step (accept s (NewVisitor (fieldMap v)))) specs ([], NewVisitor (fieldMap v)) = (parts, sub)"
    using f by (simp add: temp_def)
  then have v: "VisitOr accept v specs =
    merge_tail (if parts \<noteq> []
               then v\<lparr>conditions := conditions v @ [''('' @ Join parts '' OR '' @ '')''],
                      args := args v @ args sub\<rparr>
               else v) sub"
    by (simp add: VisitOr_def)
  have c: "conditions (VisitOr accept v specs) = conditions v @ paren_group '' OR '' parts"
    unfolding v by (simp add: paren_group_def)
  then show "conditions (VisitOr accept v specs) =
     conditions v @ paren_group '' OR '' (concat (map (\<lambda>s. paren_group '' AND '' (conditions (temp accept s))) specs))"
    unfolding p .
  have "args (VisitOr accept v specs) = args v @ (if parts = [] then [] else args sub)"
    unfolding v by simp
  then show "args (VisitOr accept v specs) =
     args v @ (if (\<forall>s\<in>set specs. conditions (temp accept s) = []) then []
               else concat (map (\<lambda>s. if conditions (temp accept s) = [] then [] else args (temp accept s)) specs))"
    unfolding e a .
  show "fieldMap (VisitOr accept v specs) = fieldMap v"
    unfolding v by simp
  have "orderClauses (VisitOr accept v specs) = orderClauses v @ orderClauses sub"
    unfolding v by simp
  then show "orderClauses (VisitOr accept v specs) =
     orderClauses v @ concat (map (\<lambda>s. orderClauses (temp accept s)) specs)"
    unfolding oc .
qed

lemma leaf_sel:
  "conditions (VisitEqual v f x) = conditions v @ [storage_name (fieldMap v) f @ '' = ?'']"
  "conditions (VisitNotEqual v f x) = conditions v @ [storage_name (fieldMap v) f @ '' <> ?'']"
  "conditions (VisitGreaterThan v f x) = conditions v @ [storage_name (fieldMap v) f @ '' > ?'']"
  "conditions (VisitLowerThan v f x) = conditions v @ [storage_name (fieldMap v) f @ '' < ?'']"
  "conditions (VisitLike v f x) = conditions v @ [storage_name (fieldMap v) f @ '' LIKE ?'']"
  "conditions (VisitGreaterThanOrEqual v f x) = conditions v @ [storage_name (fieldMap v) f @ '' >= ?'']"
  "conditions (VisitLowerThanOrEqual v f x) = conditions v @ [storage_name (fieldMap v) f @ '' <= ?'']"
  "conditions (VisitIn v f xs) = conditions v @
     (if xs = [] then [''1=0'']
      else [storage_name (fieldMap v) f @ '' IN ('' @ Join (map generic xs) '', '' @ '')''])"
  "conditions (VisitLimit v l) = conditions v"
  "conditions (VisitOffset v l) = conditions v"
  "conditions (VisitOrder v f d) = conditions v"
  by (simp_all add: VisitEqual_def VisitNotEqual_def VisitGreaterThan_def VisitLowerThan_def
      VisitLike_def VisitGreaterThanOrEqual_def VisitLowerThanOrEqual_def VisitIn_def
      VisitLimit_def VisitOffset_def VisitOrder_def mapField_eq in_loop_eq generic_def [abs_def])

lemma leaf_args:
  "args (VisitEqual v f x) = args v @ [x]"
  "args (VisitNotEqual v f x) = args v @ [x]"
  "args (VisitGreaterThan v f x) = args v @ [x]"
  "args (VisitLowerThan v f x) = args v @ [x]"
  "args (VisitLike v f x) = args v @ [x]"
  "args (VisitGreaterThanOrEqual v f x) = args v @ [x]"
  "args (VisitLowerThanOrEqual v f x) = args v @ [x]"
  "args (VisitIn v f xs) = args v @ xs"
  "args (VisitLimit v l) = args v"
  "args (VisitOffset v l) = args v"
  "args (VisitOrder v f d) = args v"
  by (simp_all add: VisitEqual_def VisitNotEqual_def VisitGreaterThan_def VisitLowerThan_def
      VisitLike_def VisitGreaterThanOrEqual_def VisitLowerThanOrEqual_def VisitIn_def
      VisitLimit_def VisitOffset_def VisitOrder_def in_loop_eq)

lemma leaf_order:
  "orderClauses (VisitEqual v f x) = orderClauses v"
  "orderClauses (VisitNotEqual v f x) = orderClauses v"
  "orderClauses (VisitGreaterThan v f x) = orderClauses v"
  "orderClauses (VisitLowerThan v f x) = orderClauses v"
  "orderClauses (VisitLike v f x) = orderClauses v"
  "orderClauses (VisitGreaterThanOrEqual v f x) = orderClauses v"
  "orderClauses (VisitLowerThanOrEqual v f x) = orderClauses v"
  "orderClauses (VisitIn v f xs) = orderClauses v"
  "orderClauses (VisitLimit v l) = orderClauses v"
  "orderClauses (VisitOffset v l) = orderClauses v"
  "orderClauses (VisitOrder v f d) = orderClauses v @ [storage_name (fieldMap v) f @ '' '' @ d]"
  by (simp_all add: VisitEqual_def VisitNotEqual_def VisitGreaterThan_def VisitLowerThan_def
      VisitLike_def VisitGreaterThanOrEqual_def VisitLowerThanOrEqual_def VisitIn_def
      VisitLimit_def VisitOffset_def VisitOrder_def mapField_eq in_loop_eq)

lemma leaf_fieldMap:
  "fieldMap (VisitEqual v f x) = fieldMap v"
  "fieldMap (VisitNotEqual v f x) = fieldMap v"
  "fieldMap (VisitGreaterThan v f x) = fieldMap v"
  "fieldMap (VisitLowerThan v f x) = fieldMap v"
  "fieldMap (VisitLike v f x) = fieldMap v"
  "fieldMap (VisitGreaterThanOrEqual v f x) = fieldMap v"
  "fieldMap (VisitLowerThanOrEqual v f x) = fieldMap v"
  "fieldMap (VisitIn v f xs) = fieldMap v"
  "fieldMap (VisitLimit v l) = fieldMap v"
  "fieldMap (VisitOffset v l) = fieldMap v"
  "fieldMap (VisitOrder v f d) = fieldMap v"
  by (simp_all add: VisitEqual_def VisitNotEqual_def VisitGreaterThan_def VisitLowerThan_def
      VisitLike_def VisitGreaterThanOrEqual_def VisitLowerThanOrEqual_def VisitIn_def
      VisitLimit_def VisitOffset_def VisitOrder_def in_loop_eq)

lemma tracks_fold:
  assumes "\<And>s. s \<in> set ss \<Longrightarrow> tracks s"
  shows "fieldMap (fold Accept ss v) = fieldMap v
     \<and> conditions (fold Accept ss v) = conditions v @ concat (map (rendered generic (fieldMap v)) ss)
     \<and> args (fold Accept ss v) = args v @ concat (map leaf_values ss)
     \<and> orderClauses (fold Accept ss v) = orderClauses v @ concat (map (order_clauses (fieldMap v)) ss)"
  using assms
proof (induction ss arbitrary: v)
  case Nil
  then show ?case by simp
next
  case (Cons s ss)
  have s: "tracks s" and ss: "\<And>x. x \<in> set ss \<Longrightarrow> tracks x"
    using Cons.prems by simp_all
  from s have h: "fieldMap (Accept s v) = fieldMap v"
    "conditions (Accept s v) = conditions v @ rendered generic (fieldMap v) s"
    "args (Accept s v) = args v @ leaf_values s"
    "orderClauses (Accept s v) = orderClauses v @ order_clauses (fieldMap v) s"
    by (simp_all add: tracks_def)
  from Cons.IH [OF ss, of "Accept s v"] h show ?case by simp
qed

lemma rendered_empty_values: "rendered sh fm t = [] \<Longrightarrow> leaf_values t = []"
proof (induction t)
  case (And ss)
  from And.prems have "\<forall>s\<in>set ss. rendered sh fm s = []" by simp
  with And.IH have "\<forall>s\<in>set ss. leaf_values s = []" by blast
  then show ?case by simp
next
  case (Or ss)
  from Or.prems have "\<forall>s\<in>set ss. rendered sh fm s = []" by simp
  with Or.IH have "\<forall>s\<in>set ss. leaf_values s = []" by blast
  then show ?case by simp
next
  case (In f xs)
  then show ?case by (simp split: if_splits)
qed simp_all

lemma Accept_tracks: "tracks t"
proof (induction t)
  case (And ss)
  show ?case
    unfolding tracks_def
  proof (intro allI)
    fix v :: "'a visitor"
    note f = tracks_fold [OF And.IH, of ss "NewVisitor (fieldMap v)", simplified]
    have e: "concat (map (rendered generic (fieldMap v)) ss) = [] \<Longrightarrow> concat (map leaf_values ss) = []"
      by (auto dest: rendered_empty_values)
    show "fieldMap (Accept (And ss) v) = fieldMap v
     \<and> conditions (Accept (And ss) v) = conditions v @ rendered generic (fieldMap v) (And ss)
     \<and> args (Accept (And ss) v) = args v @ leaf_values (And ss)
     \<and> orderClauses (Accept (And ss) v) = orderClauses v @ order_clauses (fieldMap v) (And ss)"
      using e by (simp add: VisitAnd_sel f)
  qed
next
  case (Or ss)
  show ?case
    unfolding tracks_def
  proof (intro allI)
    fix v :: "'a visitor"
    let ?fm = "fieldMap v"
    have t: "s \<in> set ss \<Longrightarrow>
        conditions (Accept s (NewVisitor ?fm)) = rendered generic ?fm s
      \<and> args (Accept s (NewVisitor ?fm)) = leaf_values s
      \<and> orderClauses (Accept s (NewVisitor ?fm)) = order_clauses ?fm s" for s
      using Or.IH [of s] by (simp add: tracks_def)
    have c: "map (\<lambda>s. paren_group '' AND '' (conditions (Accept s (NewVisitor ?fm)))) ss
           = map (\<lambda>s. paren_group '' AND '' (rendered generic ?fm s)) ss"
      using t by simp
    have a: "map (\<lambda>s. if conditions (Accept s (NewVisitor ?fm)) = [] then []
                       else args (Accept s (NewVisitor ?fm))) ss
           = map leaf_values ss"
      using t by (auto dest: rendered_empty_values)
    have oc: "map (\<lambda>s. orderClauses (Accept s (NewVisitor ?fm))) ss = map (order_clauses ?fm) ss"
      using t by simp
    have e: "(\<forall>s\<in>set ss. conditions (Accept s (NewVisitor ?fm)) = []) \<Longrightarrow> concat (map leaf_values ss) = []"
      using t by (auto dest: rendered_empty_values)
    show "fieldMap (Accept (Or ss) v) = fieldMap v
     \<and> conditions (Accept (Or ss) v) = conditions v @ rendered generic (fieldMap v) (Or ss)
     \<and> args (Accept (Or ss) v) = args v @ leaf_values (Or ss)
     \<and> orderClauses (Accept (Or ss) v) = orderClauses v @ order_clauses (fieldMap v) (Or ss)"
      using e by (simp add: VisitOr_sel c a oc)
  qed
qed (simp_all add: tracks_def leaf_sel leaf_args leaf_order leaf_fieldMap generic_def)

lemma qcount_simps [simp]:
  "qcount [] = 0"
  "qcount (c # s) = (if c = CHR ''?'' then Suc (qcount s) else qcount s)"
  "qcount (s @ t) = qcount s + qcount t"
  by (simp_all add: qcount_def)

lemma qcount_0_iff: "qcount s = 0 \<longleftrightarrow> CHR ''?'' \<notin> set s"
  by (induction s) simp_all

lemma bind_plain: "qcount s = 0 \<Longrightarrow> bind as (s @ t) = s @ bind as t"
  by (induction s) (simp_all split: if_splits)


lemma renumber_fold:
  "fold renumber_step s (out, int n) =
     (out @ bind (map marker [n..<n + qcount s]) s, int (n + qcount s))"
proof (induction s arbitrary: out n)
  case Nil
  then show ?case by simp
next
  case (Cons c s)
  show ?case
  proof (cases "c = CHR ''?''")
    case True
    have "fold renumber_step (c # s) (out, int n) =
          fold renumber_step s (out @ marker n, int (Suc n))"
      using True by (simp add: renumber_step_def marker_def add.commute)
    also have "\<dots> = (out @ marker n @ bind (map marker [Suc n..<Suc n + qcount s]) s,
                      int (Suc n + qcount s))"
      by (simp only: Cons.IH append_assoc)
    finally have F: "fold renumber_step (c # s) (out, int n) =
        (out @ marker n @ bind (map marker [Suc n..<Suc n + qcount s]) s, int (Suc n + qcount s))" .
    have q: "qcount (c # s) = Suc (qcount s)"
      using True by simp
    have b: "bind (map marker [n..<n + Suc (qcount s)]) (c # s) =
             marker n @ bind (map marker [Suc n..<Suc n + qcount s]) s"
      using True by (simp add: upt_conv_Cons del: upt_Suc)
    show ?thesis
      unfolding q b F by simp
  next
    case False
    have "fold renumber_step (c # s) (out, int n) = fold renumber_step s (out @ [c], int n)"
      using False by (simp add: renumber_step_def)
    then show ?thesis
      using False by (simp add: Cons.IH)
  qed
qed

lemma renumber_eq:
  "renumber s = (bind (map marker [1..<Suc (qcount s)]) s, 1 + int (qcount s))"
  using renumber_fold [of s "[]" 1] by (simp add: renumber_def)











lemma BuildQuery_parts:
  "BuildQuery v q = (q @ where_tail v @ order_tail v @ page_tail v, args v)"
  by (simp add: BuildQuery_def where_tail_def order_tail_def page_tail_def)

lemma fmt_d_digits:
  "fmt_d 1 = ''1''" "fmt_d 2 = ''2''" "fmt_d 3 = ''3''" "fmt_d 4 = ''4''"
  "fmt_d 5 = ''5''" "fmt_d 10 = ''10''" "fmt_d 20 = ''20''"
  by code_simp+

lemma marker_digits:
  "marker (Suc 0) = ''$1''" "marker 2 = ''$2''" "marker 3 = ''$3''" "marker 4 = ''$4''"
  using fmt_d_digits by (simp_all add: marker_def)

lemma last_positive_pos: "0 < cur \<Longrightarrow> 0 < last_positive cur xs"
  by (induction xs arbitrary: cur) simp_all

lemma last_positive_zero:
  "last_positive cur xs = (if 0 < last_positive 0 xs then last_positive 0 xs else cur)"
proof (induction xs arbitrary: cur)
  case Nil
  show ?case by simp
next
  case (Cons x xs)
  show ?case
  proof (cases "0 < x")
    case True
    then have "0 < last_positive x xs" by (rule last_positive_pos)
    with True show ?thesis by simp
  next
    case False
    with Cons [of cur] show ?thesis by simp
  qed
qed

lemma or_fold_page:
  fixes temp :: "'s \<Rightarrow> 'v visitor"
  shows "fold (\<lambda>s. or_step (temp s)) specs (parts, sub) = (parts', sub') \<Longrightarrow>
    limit sub' = last_positive (limit sub) (map (\<lambda>s. limit (temp s)) specs) \<and>
    offset sub' = last_positive (offset sub) (map (\<lambda>s. offset (temp s)) specs)"
proof (induction specs arbitrary: parts sub)
  case Nil
  then show ?case by simp
next
  case (Cons s specs)
  obtain p1 s1 where st: "or_step (temp s) (parts, sub) = (p1, s1)"
    by (cases "or_step (temp s) (parts, sub)")
  then have 1: "limit s1 = (if 0 < limit (temp s) then limit (temp s) else limit sub)"
    "offset s1 = (if 0 < offset (temp s) then offset (temp s) else offset sub)"
    by (auto simp: or_step_def Let_def split: if_splits)
  from Cons.prems st have "fold (\<lambda>s. or_step (temp s)) specs (p1, s1) = (parts', sub')"
    by simp
  from Cons.IH [OF this] 1 show ?case by simp
qed

lemma VisitOr_page:
  fixes v :: "'v visitor"
  shows "limit (VisitOr accept v specs) =
      last_positive (limit v) (map (\<lambda>s. limit (accept s (NewVisitor (fieldMap v)))) specs)"
    "offset (VisitOr accept v specs) =
      last_positive (offset v) (map (\<lambda>s. offset (accept s (NewVisitor (fieldMap v)))) specs)"
proof -
  obtain parts sub where f:
    "fold (\<lambda>s. or_step (accept s (NewVisitor (fieldMap v)))) specs ([], NewVisitor (fieldMap v)) = (parts, sub)"
    by (cases "fold (\<lambda>s. or_step (accept s (NewVisitor (fieldMap v)))) specs ([], NewVisitor (fieldMap v) :: 'v visitor)")
  then have v: "VisitOr accept v specs =
    merge_tail (if parts \<noteq> []
               then v\<lparr>conditions := conditions v @ [''('' @ Join parts '' OR '' @ '')''],
                      args := args v @ args sub\<rparr>
               else v) sub"
    by (simp add: VisitOr_def)
  from or_fold_page [OF f] have
    l: "limit sub = last_positive 0 (map (\<lambda>s. limit (accept s (NewVisitor (fieldMap v)))) specs)" and
    o: "offset sub = last_positive 0 (map (\<lambda>s. offset (accept s (NewVisitor (fieldMap v)))) specs)"
    by simp_all
  show "limit (VisitOr accept v specs) =
      last_positive (limit v) (map (\<lambda>s. limit (accept s (NewVisitor (fieldMap v)))) specs)"
    unfolding v using l
      last_positive_zero [of "limit v" "map (\<lambda>s. limit (accept s (NewVisitor (fieldMap v)))) specs"]
    by simp
  show "offset (VisitOr accept v specs) =
      last_positive (offset v) (map (\<lambda>s. offset (accept s (NewVisitor (fieldMap v)))) specs)"
    unfolding v using o
      last_positive_zero [of "offset v" "map (\<lambda>s. offset (accept s (NewVisitor (fieldMap v)))) specs"]
    by simp
qed

lemma Accept_sel:
  "fieldMap (Accept t v) = fieldMap v"
  "conditions (Accept t v) = conditions v @ rendered generic (fieldMap v) t"
  "args (Accept t v) = args v @ leaf_values t"
  "orderClauses (Accept t v) = orderClauses v @ order_clauses (fieldMap v) t"
  using Accept_tracks [of t] by (simp_all add: tracks_def)

lemma renumber_plain:
  "CHR ''?'' \<notin> set s \<Longrightarrow> fold renumber_step s st = (fst st @ s, snd st)"
  by (induction s arbitrary: st) (auto simp: renumber_step_def)

lemma renumber_changes:
  assumes "CHR ''?'' \<in> set s"
  shows "fst (renumber s) \<noteq> s"
proof -
  from assms obtain p r where s: "s = p @ CHR ''?'' # r" and p: "CHR ''?'' \<notin> set p"
    by (meson split_list_first)
  from p have q: "qcount p = 0"
    by (simp add: qcount_0_iff)
  have "fst (renumber s) = bind (map marker [1..<Suc (qcount s)]) (p @ CHR ''?'' # r)"
    by (simp add: renumber_eq s)
  also have "\<dots> = p @ bind (map marker [1..<Suc (qcount s)]) (CHR ''?'' # r)"
    by (rule bind_plain [OF q])
  also have "\<dots> = p @ CHR ''$'' # fmt_d 1 @ bind (map marker [2..<Suc (qcount s)]) r"
    by (simp add: s marker_def upt_conv_Cons numeral_2_eq_2 del: upt_Suc)
  finally show ?thesis
    unfolding s by simp
qed

lemma renumber_compare:
  assumes "qcount op = 0"
  shows "renumber (name @ op @ ''?'') =
    (fst (renumber name) @ op @ marker (Suc (qcount name)), 2 + int (qcount name))"
proof -
  from assms have op: "CHR ''?'' \<notin> set op"
    by (simp add: qcount_0_iff)
  have "renumber (name @ op @ ''?'') =
        fold renumber_step (op @ ''?'') (fold renumber_step name ([], int 1))"
    by (simp add: renumber_def)
  also have "fold renumber_step name ([], int 1) = (fst (renumber name), int (Suc (qcount name)))"
    using renumber_eq [of name] by (simp add: renumber_def)
  also have "fold renumber_step (op @ ''?'') (fst (renumber name), int (Suc (qcount name))) =
      (fst (renumber name) @ op @ marker (Suc (qcount name)), 2 + int (qcount name))"
    by (simp add: renumber_plain [OF op] renumber_step_def marker_def)
  finally show ?thesis .
qed

lemma comparison_conditions:
  "comparison t = Some (f, op, x) \<Longrightarrow>
   qcount op = 0 \<and> Accept t v = v\<lparr>conditions := conditions v @ [storage_name (fieldMap v) f @ op @ ''?''],
                      args := args v @ [x]\<rparr>"
  by (cases t)
     (auto simp: VisitEqual_def VisitNotEqual_def VisitGreaterThan_def VisitLowerThan_def
        VisitLike_def VisitGreaterThanOrEqual_def VisitLowerThanOrEqual_def mapField_eq)


section \<open>The claims\<close>

text \<open>
  C6. With no specification supplied the visitor accumulates nothing, and \<^verbatim>\<open>BuildQuery\<close>
  returns the base query unchanged, with no WHERE, ORDER BY, LIMIT or OFFSET tail, and an
  empty argument list; this holds for every base query, \<^verbatim>\<open>"SELECT * FROM t"\<close> among them.
\<close>

theorem absent_specification_returns_base:
  "BuildQuery (NewVisitor fm) q = (q, [])
   \<and> LoadQuery fm None ''SELECT * FROM t'' = (''SELECT * FROM t'', [])"
  by (simp add: LoadQuery_def BuildQuery_def)

text \<open>
  C10. Within one accumulator \<^verbatim>\<open>VisitLimit\<close> and \<^verbatim>\<open>VisitOffset\<close> store their value
  whatever it is, zero included. In \<^verbatim>\<open>And(Limit(5), Limit(0))\<close> both land in the same
  nested accumulator, whose limit ends as 0, so nothing is propagated and the final query
  has no LIMIT clause. Across accumulators it is otherwise: a parent holding 5 keeps it
  when a nested \<^verbatim>\<open>And(Limit(0))\<close> is merged.
\<close>

theorem limit_overwritten_within_accumulator:
  "limit (Accept (Limit n) v) = n
   \<and> offset (Accept (Offset n) v) = n
   \<and> limit (fold Accept [Limit 5, Limit 0] (NewVisitor fm)) = 0
   \<and> BuildQuery (Accept (And [Limit 5, Limit 0]) (NewVisitor fm)) q = (q, [])
   \<and> limit (Accept (And [Limit 0]) (Accept (Limit 5) (NewVisitor fm))) = 5
   \<and> BuildQuery (Accept (And [Limit 0]) (Accept (Limit 5) (NewVisitor fm))) q = (q @ '' LIMIT 5'', [])"
  by (simp add: VisitLimit_def VisitOffset_def VisitAnd_sel BuildQuery_parts where_tail_def
      order_tail_def page_tail_def fmt_d_digits)

text \<open>
  C3. The nested limit/offset merge rule. \<^verbatim>\<open>Limit(10)\<close> inside an \<^verbatim>\<open>And\<close>, with no limit
  at the parent, gives final limit 10. \<^verbatim>\<open>Limit(5)\<close> at the outer level with a child
  \<^verbatim>\<open>Limit(20)\<close> inside a nested \<^verbatim>\<open>And\<close> gives 20, whether the 5 was set on the visitor
  before the \<^verbatim>\<open>And\<close> or sits beside the nested \<^verbatim>\<open>And\<close>. In general the value after an
  \<^verbatim>\<open>And\<close> or \<^verbatim>\<open>Or\<close> is the last strictly positive one among the parent's and the
  nested accumulators', so a nested zero or absent value never clears a strictly positive
  value the parent holds.
\<close>

theorem nested_limit_offset_merge:
  "limit (Accept (And [Limit 10]) (NewVisitor fm)) = 10
   \<and> BuildQuery (Accept (And [Limit 10]) (NewVisitor fm)) q = (q @ '' LIMIT 10'', [])
   \<and> limit (Accept (And [Limit 20]) (Accept (Limit 5) (NewVisitor fm))) = 20
   \<and> limit (Accept (And [Limit 5, And [Limit 20]]) (NewVisitor fm)) = 20
   \<and> BuildQuery (Accept (And [Limit 5, And [Limit 20]]) (NewVisitor fm)) q = (q @ '' LIMIT 20'', [])
   \<and> limit (Accept (And ss) v) =
        last_positive (limit v) [limit (fold Accept ss (NewVisitor (fieldMap v)))]
   \<and> offset (Accept (And ss) v) =
        last_positive (offset v) [offset (fold Accept ss (NewVisitor (fieldMap v)))]
   \<and> limit (Accept (Or ss) v) =
        last_positive (limit v) (map (\<lambda>s. limit (Accept s (NewVisitor (fieldMap v)))) ss)
   \<and> offset (Accept (Or ss) v) =
        last_positive (offset v) (map (\<lambda>s. offset (Accept s (NewVisitor (fieldMap v)))) ss)
   \<and> (0 < limit v \<longrightarrow> 0 < limit (Accept (And ss) v) \<and> 0 < limit (Accept (Or ss) v))
   \<and> (0 < offset v \<longrightarrow> 0 < offset (Accept (And ss) v) \<and> 0 < offset (Accept (Or ss) v))"
proof -
  have ex: "limit (Accept (And [Limit 10]) (NewVisitor fm)) = 10"
    "BuildQuery (Accept (And [Limit 10]) (NewVisitor fm)) q = (q @ '' LIMIT 10'', [])"
    "limit (Accept (And [Limit 20]) (Accept (Limit 5) (NewVisitor fm))) = 20"
    "limit (Accept (And [Limit 5, And [Limit 20]]) (NewVisitor fm)) = 20"
    "BuildQuery (Accept (And [Limit 5, And [Limit 20]]) (NewVisitor fm)) q = (q @ '' LIMIT 20'', [])"
    by (simp_all add: VisitLimit_def VisitAnd_sel BuildQuery_parts where_tail_def
        order_tail_def page_tail_def fmt_d_digits)
  have a: "limit (Accept (And ss) v) =
        last_positive (limit v) [limit (fold Accept ss (NewVisitor (fieldMap v)))]"
    "offset (Accept (And ss) v) =
        last_positive (offset v) [offset (fold Accept ss (NewVisitor (fieldMap v)))]"
    by (simp_all add: VisitAnd_sel)
  have o: "limit (Accept (Or ss) v) =
        last_positive (limit v) (map (\<lambda>s. limit (Accept s (NewVisitor (fieldMap v)))) ss)"
    "offset (Accept (Or ss) v) =
        last_positive (offset v) (map (\<lambda>s. offset (Accept s (NewVisitor (fieldMap v)))) ss)"
    by (simp_all add: VisitOr_page)
  have p: "0 < limit v \<longrightarrow> 0 < limit (Accept (And ss) v) \<and> 0 < limit (Accept (Or ss) v)"
    "0 < offset v \<longrightarrow> 0 < offset (Accept (And ss) v) \<and> 0 < offset (Accept (Or ss) v)"
    unfolding a o by (simp_all add: last_positive_pos)
  show ?thesis
    by (intro conjI ex a o p)
qed

theorem nested_limit_offset_merge_witness:
  "0 < limit (Accept (Offset 3) (Accept (Limit 5) (NewVisitor Map.empty)) :: int visitor)
   \<and> 0 < offset (Accept (Offset 3) (Accept (Limit 5) (NewVisitor Map.empty)) :: int visitor)
   \<and> 0 < limit (Accept (And [Limit 0, Equal ''a'' 1, Offset 0])
        (Accept (Offset 3) (Accept (Limit 5) (NewVisitor Map.empty))) :: int visitor)
   \<and> 0 < limit (Accept (Or [Limit 0, Equal ''a'' 1, Offset 0])
        (Accept (Offset 3) (Accept (Limit 5) (NewVisitor Map.empty))) :: int visitor)
   \<and> 0 < offset (Accept (And [Limit 0, Equal ''a'' 1, Offset 0])
        (Accept (Offset 3) (Accept (Limit 5) (NewVisitor Map.empty))) :: int visitor)
   \<and> 0 < offset (Accept (Or [Limit 0, Equal ''a'' 1, Offset 0])
        (Accept (Offset 3) (Accept (Limit 5) (NewVisitor Map.empty))) :: int visitor)"
proof -
  let ?v = "Accept (Offset 3) (Accept (Limit 5) (NewVisitor Map.empty)) :: int visitor"
  have h: "0 < limit ?v" "0 < offset ?v"
    by (simp_all add: VisitLimit_def VisitOffset_def)
  with nested_limit_offset_merge [of Map.empty "[]" "[Limit 0, Equal ''a'' 1, Offset 0]" ?v]
  show ?thesis by blast
qed

text \<open>
  C7. \<^verbatim>\<open>OrderBy(f, d)\<close> appends exactly one clause, the storage name of \<open>f\<close>, a space and
  the direction token as given, and changes nothing else. The clauses of the nested
  accumulators of \<^verbatim>\<open>And\<close> and \<^verbatim>\<open>Or\<close> are appended after the parent's, so that a tree
  adds its clauses in traversal order, at any depth. When the visitor holds a clause,
  \<^verbatim>\<open>BuildQuery\<close> appends \<^verbatim>\<open>ORDER BY\<close> and the clauses, comma-joined in the order of
  accumulation, between the WHERE tail and the LIMIT/OFFSET tail.
\<close>

theorem order_by_clauses_accumulate:
  "Accept (OrderBy f d) v = v\<lparr>orderClauses := orderClauses v @ [storage_name (fieldMap v) f @ '' '' @ d]\<rparr>
   \<and> orderClauses (Accept (And ss) v) =
       orderClauses v @ orderClauses (fold Accept ss (NewVisitor (fieldMap v)))
   \<and> orderClauses (Accept (Or ss) v) =
       orderClauses v @ concat (map (\<lambda>s. orderClauses (Accept s (NewVisitor (fieldMap v)))) ss)
   \<and> orderClauses (Accept t v) = orderClauses v @ order_clauses (fieldMap v) t
   \<and> (orderClauses v \<noteq> [] \<longrightarrow>
        fst (BuildQuery v q) =
          q @ where_tail v @ '' ORDER BY '' @ Join (orderClauses v) '', '' @ page_tail v)"
  by (simp add: VisitOrder_def mapField_eq VisitAnd_sel VisitOr_sel Accept_sel
      BuildQuery_parts order_tail_def)

theorem order_by_clauses_accumulate_witness:
  "orderClauses (Accept (And [OrderBy ''Status'' ''ASC'', Or [OrderBy ''Price'' ''sideways'', Limit 2]])
         (Accept (OrderBy ''ID'' ''DESC'') (NewVisitor [''Status'' \<mapsto> ''status'']) :: int visitor))
       \<noteq> []
   \<and> BuildQuery (Accept (And [OrderBy ''Status'' ''ASC'', Or [OrderBy ''Price'' ''sideways'', Limit 2]])
         (Accept (OrderBy ''ID'' ''DESC'') (NewVisitor [''Status'' \<mapsto> ''status'']) :: int visitor))
         ''SELECT * FROM t''
       = (''SELECT * FROM t ORDER BY ID DESC, status ASC, Price sideways LIMIT 2'', [])"
proof -
  let ?v = "Accept (And [OrderBy ''Status'' ''ASC'', Or [OrderBy ''Price'' ''sideways'', Limit 2]])
         (Accept (OrderBy ''ID'' ''DESC'') (NewVisitor [''Status'' \<mapsto> ''status'']) :: int visitor)"
  have oc: "orderClauses ?v = [''ID DESC'', ''status ASC'', ''Price sideways'']"
    by (simp add: Accept_sel storage_name_def del: Accept.simps)
  then have h: "orderClauses ?v \<noteq> []"
    by simp
  have c: "conditions ?v = []" "limit ?v = 2" "offset ?v = 0" "args ?v = []"
    by (simp_all add: VisitAnd_sel VisitOr_sel VisitOr_page VisitLimit_def VisitOrder_def)
  have "fst (BuildQuery ?v ''SELECT * FROM t'') =
          ''SELECT * FROM t'' @ where_tail ?v @ '' ORDER BY '' @ Join (orderClauses ?v) '', '' @ page_tail ?v"
    using order_by_clauses_accumulate [of _ _ ?v] h by blast
  then have "fst (BuildQuery ?v ''SELECT * FROM t'') =
      ''SELECT * FROM t ORDER BY ID DESC, status ASC, Price sideways LIMIT 2''"
    unfolding oc by (simp add: where_tail_def page_tail_def c fmt_d_digits del: Accept.simps)
  moreover have "snd (BuildQuery ?v ''SELECT * FROM t'') = []"
    by (simp add: BuildQuery_parts c del: Accept.simps)
  ultimately show ?thesis
    using h by (simp add: prod_eq_iff del: Accept.simps)
qed

text \<open>
  C8. A logical field absent from the field-translation table appears under its own name
  in every condition fragment and order clause emitted for it; a field present in the
  table appears under the mapped storage name. Nested accumulators work with the same
  table, so the fragments and clauses of a whole tree are those of its rendering under
  the storage names.
\<close>

theorem field_names_translated:
  "(fieldMap v f = None \<longrightarrow> names_field v f f x xs d)
   \<and> (fieldMap v f = Some n \<longrightarrow> names_field v f n x xs d)
   \<and> fieldMap (Accept t v) = fieldMap v
   \<and> conditions (Accept t v) = conditions v @ rendered generic (fieldMap v) t
   \<and> orderClauses (Accept t v) = orderClauses v @ order_clauses (fieldMap v) t"
  by (simp add: names_field_def Accept_sel mapField_eq storage_name_def generic_def
      del: Accept.simps)

theorem field_names_translated_witness:
  "fieldMap (NewVisitor [''Status'' \<mapsto> ''status'']) ''Price'' = None
   \<and> names_field (NewVisitor [''Status'' \<mapsto> ''status'']) ''Price'' ''Price'' (1::int) [2] ''ASC''
   \<and> fieldMap (NewVisitor [''Status'' \<mapsto> ''status'']) ''Status'' = Some ''status''
   \<and> names_field (NewVisitor [''Status'' \<mapsto> ''status'']) ''Status'' ''status'' (1::int) [2] ''ASC''"
proof -
  let ?v = "NewVisitor [''Status'' \<mapsto> ''status''] :: int visitor"
  have h: "fieldMap ?v ''Price'' = None" "fieldMap ?v ''Status'' = Some ''status''"
    by simp_all
  from field_names_translated [of ?v "''Price''" 1 "[2]" "''ASC''"] h(1)
  have 1: "names_field ?v ''Price'' ''Price'' 1 [2] ''ASC''" by blast
  from field_names_translated [of ?v "''Status''" _ _ _ "''status''"] h(2)
  have 2: "names_field ?v ''Status'' ''status'' 1 [2] ''ASC''" by blast
  from h 1 2 show ?thesis by simp
qed









text \<open>
  C9. For a comparison node whose storage name contains the character \<^verbatim>\<open>?\<close>, the
  renumbering pass of \<^verbatim>\<open>BuildQuery\<close> replaces that character by a positional marker as
  well. The WHERE clause is the renumbered storage name, which differs from the storage
  name, then the operator and the marker of the value; that marker is numbered one more
  than the storage name has \<^verbatim>\<open>?\<close> characters. The clause holds more markers than there
  are arguments, and the number of the value's marker is beyond the single argument.
\<close>

theorem placeholder_in_field_name:
  assumes "comparison t = Some (f, op, x)" and "CHR ''?'' \<in> set (storage_name fm f)"
  shows "BuildQuery (Accept t (NewVisitor fm)) q =
           (q @ '' WHERE '' @ fst (renumber (storage_name fm f)) @ op
              @ marker (Suc (qcount (storage_name fm f))), [x])
         \<and> fst (renumber (storage_name fm f)) \<noteq> storage_name fm f
         \<and> placeholder_count (Accept t (NewVisitor fm)) = Suc (qcount (storage_name fm f))
         \<and> length (snd (BuildQuery (Accept t (NewVisitor fm)) q))
             < placeholder_count (Accept t (NewVisitor fm))
         \<and> length (snd (BuildQuery (Accept t (NewVisitor fm)) q))
             < Suc (qcount (storage_name fm f))"
proof -
  let ?n = "storage_name fm f"
  from comparison_conditions [OF assms(1), of "NewVisitor fm"] have
    op: "qcount op = 0" and
    v: "Accept t (NewVisitor fm) = (NewVisitor fm)\<lparr>conditions := [?n @ op @ ''?''], args := [x]\<rparr>"
    by simp_all
  from assms(2) have pos: "0 < qcount ?n"
    using qcount_0_iff [of ?n] by simp
  have b: "BuildQuery (Accept t (NewVisitor fm)) q =
           (q @ '' WHERE '' @ fst (renumber ?n) @ op @ marker (Suc (qcount ?n)), [x])"
    unfolding v by (simp add: BuildQuery_def renumber_compare [OF op])
  have c: "placeholder_count (Accept t (NewVisitor fm)) = Suc (qcount ?n)"
    unfolding v by (simp add: placeholder_count_def renumber_compare [OF op])
  show ?thesis
    using c pos renumber_changes [OF assms(2)] unfolding b by simp
qed

theorem placeholder_in_field_name_witness:
  "comparison (Equal ''a?'' (7::int)) = Some (''a?'', '' = '', 7)
   \<and> CHR ''?'' \<in> set (storage_name Map.empty ''a?'')
   \<and> BuildQuery (Accept (Equal ''a?'' (7::int)) (NewVisitor Map.empty)) ''SELECT * FROM t''
       = (''SELECT * FROM t WHERE a$1 = $2'', [7])
   \<and> placeholder_count (Accept (Equal ''a?'' (7::int)) (NewVisitor Map.empty)) = 2
   \<and> length (snd (BuildQuery (Accept (Equal ''a?'' (7::int)) (NewVisitor Map.empty)) ''SELECT * FROM t'')) = 1"
proof -
  have n: "storage_name Map.empty ''a?'' = ''a?''"
    by (simp add: storage_name_def)
  have h: "comparison (Equal ''a?'' (7::int)) = Some (''a?'', '' = '', 7)"
    "CHR ''?'' \<in> set (storage_name Map.empty ''a?'')"
    by (simp_all add: n)
  have r: "fst (renumber ''a?'') = ''a$1''" "qcount ''a?'' = 1"
    by (simp_all add: renumber_def renumber_step_def fmt_d_digits)
  have m: "marker (Suc (Suc 0)) = ''$2''"
    using marker_digits(2) by (simp add: numeral_2_eq_2)
  from placeholder_in_field_name [OF h, of "''SELECT * FROM t''"] h show ?thesis
    unfolding n r by (simp add: m del: Accept.simps)
qed




end
